theory Spec2Isabelle
  imports Complex_Main "HOL-Library.AList"
begin

section \<open>The slideshow engine of \<^verbatim>\<open>src/slideshow.py\<close>\<close>

text \<open>
  The theory embeds the staging cache, the preloader pass and the sequencer of
  \<^verbatim>\<open>SlideshowEngine\<close>. Paths and cache keys are strings. Everything the methods read
  from outside the object (source files, the temporary directory, the screen, the
  directory listing, the random generator) is a field of the state record, so that a
  method is a function from states to states.
\<close>

subsection \<open>Python values\<close>

datatype py_error = ZeroDivisionError | IndexError

text \<open>\<^verbatim>\<open>int(x)\<close> on a float truncates towards zero.\<close>

definition py_int :: "real \<Rightarrow> int" where
  "py_int x = (if 0 \<le> x then \<lfloor>x\<rfloor> else \<lceil>x\<rceil>)"

text \<open>\<^verbatim>\<open>a % b\<close> on non-negative integers raises when \<^verbatim>\<open>b\<close> is zero.\<close>

definition py_mod :: "nat \<Rightarrow> nat \<Rightarrow> py_error + nat" where
  "py_mod a b = (if b = 0 then Inl ZeroDivisionError else Inr (a mod b))"

text \<open>\<^verbatim>\<open>xs[i]\<close> with a non-negative index raises when the index is out of range.\<close>

definition py_getitem :: "'a list \<Rightarrow> nat \<Rightarrow> py_error + 'a" where
  "py_getitem xs i = (if i < length xs then Inr (xs ! i) else Inl IndexError)"

subsection \<open>State\<close>

text \<open>
  What the engine observes of one source image: the text of its modification time (the
  \<^verbatim>\<open>os.path.getmtime\<close> value as the f-string of the cache key prints it), the size in
  pixels of the decoded image after the optional EXIF transposition (\<open>None\<close> when
  \<^verbatim>\<open>Image.open\<close> raises), and the number of bytes \<^verbatim>\<open>img.save\<close> writes for it (\<open>None\<close>
  when saving raises).
\<close>

record source =
  src_mtime :: string
  src_size :: "(nat \<times> nat) option"
  src_jpeg :: "nat option"

text \<open>The calls that leave the process, in the order they are made.\<close>

datatype event =
    Decode string
  | Save string nat
  | Remove string
  | Feh string

text \<open>
  The fields of \<^verbatim>\<open>SlideshowEngine\<close> that the modelled methods use, followed by the
  environment: \<open>sources\<close> are the image files, \<open>files\<close> the files under \<^verbatim>\<open>/tmp\<close> with
  their sizes in bytes, \<open>remove_fails\<close> the paths on which \<^verbatim>\<open>os.remove\<close> raises,
  \<open>screen\<close> the answer of \<^verbatim>\<open>get_screen_resolution\<close>, \<open>listing\<close> the answer of
  \<^verbatim>\<open>get_supported_images\<close> (already sorted, empty when the directory is missing),
  \<open>rng\<close> the number of shuffles drawn so far, and \<open>trace\<close> the events so far.
  The cache is a Python \<^verbatim>\<open>dict\<close>: an association list in insertion order.
\<close>

record engine =
  fit_mode :: string
  random_order :: bool
  enable_cache :: bool
  cache_size :: int
  preload_count :: int
  current_images :: "string list"
  current_index :: nat
  feh_process :: "string option"
  cache :: "(string \<times> string) list"
  cache_size_used :: int
  stop_event :: bool
  sources :: "string \<rightharpoonup> source"
  files :: "string \<rightharpoonup> nat"
  remove_fails :: "string \<Rightarrow> bool"
  screen :: "nat \<times> nat"
  listing :: "string list"
  rng :: nat
  trace :: "event list"

text \<open>
  Library functions the source calls and does not define: the decimal text of Python's
  \<^verbatim>\<open>hash\<close> of a string, the size \<^verbatim>\<open>Image.thumbnail\<close> gives an image inside a box, and
  the outcome of the \<open>n\<close>-th call of \<^verbatim>\<open>random.shuffle\<close>.
\<close>

record lib =
  hash_str :: "string \<Rightarrow> string"
  thumbnail :: "nat \<times> nat \<Rightarrow> nat \<times> nat \<Rightarrow> nat \<times> nat"
  shuffle :: "nat \<Rightarrow> string list \<Rightarrow> string list"

subsection \<open>The transform: fit modes (lines 91--118)\<close>

text \<open>
  The \<^verbatim>\<open>cover\<close> branch: the size the image is resized to and the upper left corner of
  the crop box. The source computes the two ratios as floats; the model computes them
  as reals.
\<close>

record crop_plan =
  new_width :: int
  new_height :: int
  crop_left :: int
  crop_top :: int

definition cover_plan :: "nat \<times> nat \<Rightarrow> nat \<times> nat \<Rightarrow> py_error + crop_plan" where
  "cover_plan img scr =
     (let (img_width, img_height) = img; (screen_width, screen_height) = scr in
      if img_height = 0 \<or> screen_height = 0 then Inl ZeroDivisionError
      else
        let img_ratio = real img_width / real img_height;
            screen_ratio = real screen_width / real screen_height
        in
          if img_ratio > screen_ratio then
            let nh = int screen_height;
                nw = py_int (real_of_int nh * img_ratio)
            in Inr \<lparr>new_width = nw, new_height = nh,
                    crop_left = (nw - int screen_width) div 2,
                    crop_top = (nh - int screen_height) div 2\<rparr>
          else if img_ratio = 0 then Inl ZeroDivisionError
          else
            let nw = int screen_width;
                nh = py_int (real_of_int nw / img_ratio)
            in Inr \<lparr>new_width = nw, new_height = nh,
                    crop_left = (nw - int screen_width) div 2,
                    crop_top = (nh - int screen_height) div 2\<rparr>)"

text \<open>
  The crop box \<^verbatim>\<open>(left, top, left + screen_width, top + screen_height)\<close> handed to
  \<^verbatim>\<open>img.crop\<close>, and the size of the bitmap \<^verbatim>\<open>crop\<close> returns for a box.
\<close>

definition crop_box :: "crop_plan \<Rightarrow> nat \<times> nat \<Rightarrow> int \<times> int \<times> int \<times> int" where
  "crop_box p scr =
     (crop_left p, crop_top p, crop_left p + int (fst scr), crop_top p + int (snd scr))"

definition box_size :: "int \<times> int \<times> int \<times> int \<Rightarrow> int \<times> int" where
  "box_size b = (case b of (l, t, r, d) \<Rightarrow> (r - l, d - t))"

text \<open>
  A box lies inside the resized image (\<^verbatim>\<open>crop\<close> pads nothing), and it is centred (what
  is cut on the left equals what is cut on the right, and the same for top and bottom).
\<close>

definition box_inside :: "crop_plan \<Rightarrow> int \<times> int \<times> int \<times> int \<Rightarrow> bool" where
  "box_inside p b =
     (case b of (l, t, r, d) \<Rightarrow> 0 \<le> l \<and> 0 \<le> t \<and> r \<le> new_width p \<and> d \<le> new_height p)"

definition box_centred :: "crop_plan \<Rightarrow> int \<times> int \<times> int \<times> int \<Rightarrow> bool" where
  "box_centred p b =
     (case b of (l, t, r, d) \<Rightarrow> l = new_width p - r \<and> t = new_height p - d)"

text \<open>The size in pixels of the bitmap that is saved, for each fit mode.\<close>

definition fit_image ::
  "lib \<Rightarrow> string \<Rightarrow> nat \<times> nat \<Rightarrow> nat \<times> nat \<Rightarrow> py_error + (int \<times> int)" where
  "fit_image l mode img scr =
     (if mode = ''contain'' then
        Inr (int (fst (thumbnail l img scr)), int (snd (thumbnail l img scr)))
      else if mode = ''cover'' then
        (case cover_plan img scr of
           Inl e \<Rightarrow> Inl e
         | Inr p \<Rightarrow> Inr (box_size (crop_box p scr)))
      else if mode = ''fill'' then Inr (int (fst scr), int (snd scr))
      else Inr (int (fst img), int (snd img)))"

subsection \<open>The staging cache (lines 74--163)\<close>

definition cache_key_of :: "string \<Rightarrow> string \<Rightarrow> string" where
  "cache_key_of image_path mtime = image_path @ ''_'' @ mtime"

definition temp_path_of :: "lib \<Rightarrow> string \<Rightarrow> string" where
  "temp_path_of l image_path = ''/tmp/slideshow_processed_'' @ hash_str l image_path @ ''.jpg''"

text \<open>
  One iteration of the loop of \<^verbatim>\<open>_clean_cache\<close>: the file is removed and its size on
  disk subtracted inside the \<^verbatim>\<open>try\<close>, only when the file exists and \<^verbatim>\<open>os.remove\<close>
  does not raise; the entry is deleted after the \<^verbatim>\<open>try\<close> in every case. The key comes
  from the table itself, so the lookup finds it.
\<close>

definition evict_entry :: "string \<Rightarrow> engine \<Rightarrow> engine" where
  "evict_entry key s =
     (case map_of (cache s) key of
        None \<Rightarrow> s
      | Some temp_path \<Rightarrow>
          let s1 =
            (case files s temp_path of
               None \<Rightarrow> s
             | Some file_size \<Rightarrow>
                 if remove_fails s temp_path then s
                 else s\<lparr>files := (files s)(temp_path := None),
                        cache_size_used := cache_size_used s - int file_size,
                        trace := trace s @ [Remove temp_path]\<rparr>)
          in s1\<lparr>cache := AList.delete key (cache s1)\<rparr>)"

fun clean_loop :: "nat \<Rightarrow> nat \<Rightarrow> string list \<Rightarrow> engine \<Rightarrow> engine" where
  "clean_loop items_to_remove removed [] s = s"
| "clean_loop items_to_remove removed (key # keys) s =
     (if removed \<ge> items_to_remove then s
      else clean_loop items_to_remove (removed + 1) keys (evict_entry key s))"

definition clean_cache :: "engine \<Rightarrow> engine" where
  "clean_cache s = clean_loop (length (cache s) div 2) 0 (map fst (cache s)) s"

text \<open>Lines 78--80: the key is computed and looked up; \<^verbatim>\<open>getmtime\<close> may raise.\<close>

datatype cache_check = Hit string | Miss string | Raised

definition check_cache :: "string \<Rightarrow> engine \<Rightarrow> cache_check" where
  "check_cache image_path s =
     (case sources s image_path of
        None \<Rightarrow> Raised
      | Some src \<Rightarrow>
          let cache_key = cache_key_of image_path (src_mtime src) in
          (case map_of (cache s) cache_key of
             Some temp_path \<Rightarrow> Hit temp_path
           | None \<Rightarrow> Miss cache_key))"

text \<open>
  Lines 83--122, the producer: open, fit, save. An exception at any point leaves the
  \<^verbatim>\<open>with\<close> block for the handler of line 139, and the producer returns nothing.
\<close>

definition produce :: "lib \<Rightarrow> string \<Rightarrow> engine \<Rightarrow> string option \<times> engine" where
  "produce l image_path s =
     (case sources s image_path of
        None \<Rightarrow> (None, s)
      | Some src \<Rightarrow>
          let s1 = s\<lparr>trace := trace s @ [Decode image_path]\<rparr> in
          (case src_size src of
             None \<Rightarrow> (None, s1)
           | Some img \<Rightarrow>
               (case fit_image l (fit_mode s1) img (screen s1) of
                  Inl e \<Rightarrow> (None, s1)
                | Inr out_size \<Rightarrow>
                    let temp_path = temp_path_of l image_path in
                    (case src_jpeg src of
                       None \<Rightarrow> (None, s1)
                     | Some n \<Rightarrow>
                         (Some temp_path,
                          s1\<lparr>files := (files s1)(temp_path \<mapsto> n),
                             trace := trace s1 @ [Save temp_path n]\<rparr>)))))"

definition insert_entry :: "string \<Rightarrow> string \<Rightarrow> int \<Rightarrow> engine \<Rightarrow> engine" where
  "insert_entry cache_key temp_path file_size s =
     s\<lparr>cache := AList.update cache_key temp_path (cache s),
       cache_size_used := cache_size_used s + file_size\<rparr>"

text \<open>Lines 124--137: admission, and the value \<^verbatim>\<open>process_image\<close> returns.\<close>

definition admit :: "string \<Rightarrow> string \<Rightarrow> engine \<Rightarrow> string option \<times> engine" where
  "admit cache_key temp_path s =
     (if enable_cache s then
        (case files s temp_path of
           None \<Rightarrow> (None, s)
         | Some n \<Rightarrow>
             let file_size = int n in
             if cache_size_used s + file_size \<le> cache_size s
             then (Some temp_path, insert_entry cache_key temp_path file_size s)
             else
               let s1 = clean_cache s in
               if cache_size_used s1 + file_size \<le> cache_size s1
               then (Some temp_path, insert_entry cache_key temp_path file_size s1)
               else (Some temp_path, s1))
      else (Some temp_path, s))"

definition process_image :: "lib \<Rightarrow> string \<Rightarrow> engine \<Rightarrow> string option \<times> engine" where
  "process_image l image_path s =
     (case check_cache image_path s of
        Raised \<Rightarrow> (None, s)
      | Hit temp_path \<Rightarrow> (Some temp_path, s)
      | Miss cache_key \<Rightarrow>
          (case produce l image_path s of
             (None, s1) \<Rightarrow> (None, s1)
           | (Some temp_path, s1) \<Rightarrow> admit cache_key temp_path s1))"

subsection \<open>Display and sequencing (lines 196--272)\<close>

definition start_feh :: "string \<Rightarrow> engine \<Rightarrow> engine" where
  "start_feh image_path s =
     s\<lparr>feh_process := Some image_path, trace := trace s @ [Feh image_path]\<rparr>"

definition display_image :: "lib \<Rightarrow> string \<Rightarrow> engine \<Rightarrow> engine" where
  "display_image l image_path s =
     (case process_image l image_path s of
        (None, s1) \<Rightarrow> s1
      | (Some processed_path, s1) \<Rightarrow> start_feh processed_path s1)"

definition next_image :: "lib \<Rightarrow> engine \<Rightarrow> py_error + engine" where
  "next_image l s =
     (if current_images s = [] then Inr s
      else
        (case py_mod (current_index s + 1) (length (current_images s)) of
           Inl e \<Rightarrow> Inl e
         | Inr i \<Rightarrow>
             let s1 = s\<lparr>current_index := i\<rparr> in
             (case py_getitem (current_images s1) (current_index s1) of
                Inl e \<Rightarrow> Inl e
              | Inr image_path \<Rightarrow> Inr (display_image l image_path s1))))"

definition scan_images :: "engine \<Rightarrow> string list" where
  "scan_images s = listing s"

definition refresh_images :: "lib \<Rightarrow> engine \<Rightarrow> py_error + engine" where
  "refresh_images l s =
     (let new_images = scan_images s in
      if new_images \<noteq> current_images s then
        let s1 = s\<lparr>current_images := new_images\<rparr>;
            s2 = (if random_order s1
                  then s1\<lparr>current_images := shuffle l (rng s1) (current_images s1),
                          rng := rng s1 + 1\<rparr>
                  else s1);
            s3 = (if current_index s2 \<ge> length (current_images s2)
                  then s2\<lparr>current_index := 0\<rparr> else s2)
        in
          if current_images s3 \<noteq> [] then
            (case py_getitem (current_images s3) (current_index s3) of
               Inl e \<Rightarrow> Inl e
             | Inr image_path \<Rightarrow> Inr (display_image l image_path s3))
          else Inr s3
      else Inr s)"

subsection \<open>One pass of the preloader (lines 180--187)\<close>

fun preload_loop :: "lib \<Rightarrow> nat list \<Rightarrow> engine \<Rightarrow> py_error + engine" where
  "preload_loop l [] s = Inr s"
| "preload_loop l (i # rest) s =
     (if stop_event s then Inr s
      else
        (case py_mod (current_index s + i + 1) (length (current_images s)) of
           Inl e \<Rightarrow> Inl e
         | Inr next_index \<Rightarrow>
             if next_index < length (current_images s) then
               (case py_getitem (current_images s) next_index of
                  Inl e \<Rightarrow> Inl e
                | Inr image_path \<Rightarrow> preload_loop l rest (snd (process_image l image_path s)))
             else preload_loop l rest s))"

definition preload_pass :: "lib \<Rightarrow> engine \<Rightarrow> py_error + engine" where
  "preload_pass l s = preload_loop l [0..<nat (preload_count s)] s"

subsection \<open>Sequences of cache operations\<close>

text \<open>
  A run of the cache: calls of \<^verbatim>\<open>process_image\<close> and of \<^verbatim>\<open>_clean_cache\<close>, and
  between them changes of a source image by the synchronisation (a new modification
  time, new content, or its removal).
\<close>

datatype cache_op = ProcessImage string | CleanCache | Touch string "source option"

fun apply_op :: "lib \<Rightarrow> engine \<Rightarrow> cache_op \<Rightarrow> engine" where
  "apply_op l s (ProcessImage image_path) = snd (process_image l image_path s)"
| "apply_op l s CleanCache = clean_cache s"
| "apply_op l s (Touch image_path src) = s\<lparr>sources := (sources s)(image_path := src)\<rparr>"

definition run_ops :: "lib \<Rightarrow> cache_op list \<Rightarrow> engine \<Rightarrow> engine" where
  "run_ops l ops s = foldl (apply_op l) s ops"

text \<open>The admission test of lines 127 and 133.\<close>

definition fits :: "engine \<Rightarrow> nat \<Rightarrow> bool" where
  "fits s n = (cache_size_used s + int n \<le> cache_size s)"

text \<open>
  Bytes on disk: the size of a file (zero when it is absent), the bytes one removal in
  an eviction pass gives back, and the bytes the files of the cache entries hold.
\<close>

definition size_on_disk :: "engine \<Rightarrow> string \<Rightarrow> nat" where
  "size_on_disk s p = (case files s p of None \<Rightarrow> 0 | Some n \<Rightarrow> n)"

definition reclaimed :: "engine \<Rightarrow> string \<Rightarrow> nat" where
  "reclaimed s p = (if remove_fails s p then 0 else size_on_disk s p)"

definition cache_bytes :: "engine \<Rightarrow> nat" where
  "cache_bytes s = sum_list (map (\<lambda>(k, p). size_on_disk s p) (cache s))"

text \<open>The entries an eviction pass visits: the first half, in iteration order.\<close>

definition evicted :: "engine \<Rightarrow> (string \<times> string) list" where
  "evicted s = take (length (cache s) div 2) (cache s)"

text \<open>How often the producer has opened an image.\<close>

definition decodes :: "string \<Rightarrow> engine \<Rightarrow> nat" where
  "decodes image_path s = count_list (trace s) (Decode image_path)"

subsection \<open>Two callers of \<^verbatim>\<open>process_image\<close>\<close>

text \<open>
  The source takes no lock. A caller of \<^verbatim>\<open>process_image\<close> is at one of four points:
  before the lookup of lines 78--80, before the producer of lines 83--122, before the
  admission of lines 124--137, or returned. Another thread may run between two of the
  points. A schedule says which of two callers, both processing the same image, takes
  the next step (\<open>True\<close> for the first caller).
\<close>

datatype pc = Begin | Producing string | Admitting string string | Returned "string option"

definition thread_step :: "lib \<Rightarrow> string \<Rightarrow> pc \<Rightarrow> engine \<Rightarrow> pc \<times> engine" where
  "thread_step l image_path c s =
     (case c of
        Begin \<Rightarrow>
          (case check_cache image_path s of
             Raised \<Rightarrow> (Returned None, s)
           | Hit temp_path \<Rightarrow> (Returned (Some temp_path), s)
           | Miss cache_key \<Rightarrow> (Producing cache_key, s))
      | Producing cache_key \<Rightarrow>
          (case produce l image_path s of
             (None, s1) \<Rightarrow> (Returned None, s1)
           | (Some temp_path, s1) \<Rightarrow> (Admitting cache_key temp_path, s1))
      | Admitting cache_key temp_path \<Rightarrow>
          (case admit cache_key temp_path s of (r, s1) \<Rightarrow> (Returned r, s1))
      | Returned r \<Rightarrow> (Returned r, s))"

fun interleave :: "lib \<Rightarrow> string \<Rightarrow> bool list \<Rightarrow> pc \<times> pc \<times> engine \<Rightarrow> pc \<times> pc \<times> engine" where
  "interleave l image_path [] c = c"
| "interleave l image_path (first # sched) (c1, c2, s) =
     (if first
      then (case thread_step l image_path c1 s of
              (c1', s') \<Rightarrow> interleave l image_path sched (c1', c2, s'))
      else (case thread_step l image_path c2 s of
              (c2', s') \<Rightarrow> interleave l image_path sched (c1, c2', s')))"

subsection \<open>A concrete frame\<close>

text \<open>
  A run of the engine on three images of 4000 by 2000 pixels whose artifacts take 400
  bytes each, with a budget of 1000 bytes. \<open>stub_lib\<close> fixes what the library calls
  answer in this run: the hashes of the three paths, a thumbnail that fills the box,
  and shuffles that reverse the list on even draws and rotate it on odd ones.
\<close>

abbreviation img_a :: string where "img_a \<equiv> ''/img/a.jpg''"
abbreviation img_b :: string where "img_b \<equiv> ''/img/b.jpg''"
abbreviation img_c :: string where "img_c \<equiv> ''/img/c.jpg''"

abbreviation tmp_a :: string where "tmp_a \<equiv> ''/tmp/slideshow_processed_101.jpg''"
abbreviation tmp_b :: string where "tmp_b \<equiv> ''/tmp/slideshow_processed_102.jpg''"
abbreviation tmp_c :: string where "tmp_c \<equiv> ''/tmp/slideshow_processed_103.jpg''"

definition stub_lib :: lib where
  "stub_lib =
     \<lparr>hash_str = (\<lambda>p. if p = img_a then ''101'' else if p = img_b then ''102'' else ''103''),
      thumbnail = (\<lambda>img box. box),
      shuffle = (\<lambda>n xs. if even n then rev xs else rotate1 xs)\<rparr>"

definition photo :: "string \<Rightarrow> source" where
  "photo mtime = \<lparr>src_mtime = mtime, src_size = Some (4000, 2000), src_jpeg = Some 400\<rparr>"

definition frame0 :: engine where
  "frame0 =
     \<lparr>fit_mode = ''cover'', random_order = False, enable_cache = True, cache_size = 1000,
      preload_count = 3, current_images = [], current_index = 0, feh_process = None,
      cache = [], cache_size_used = 0, stop_event = False,
      sources = [img_a \<mapsto> photo ''1.0'', img_b \<mapsto> photo ''1.0'', img_c \<mapsto> photo ''1.0''],
      files = Map.empty, remove_fails = (\<lambda>p. False), screen = (1920, 1080),
      listing = [img_a, img_b, img_c], rng = 0, trace = []\<rparr>"

text \<open>The state the frame is in once \<open>img_a\<close> and \<open>img_b\<close> have been processed.\<close>

definition frame_ab :: engine where
  "frame_ab =
     frame0\<lparr>cache := [(''/img/a.jpg_1.0'', tmp_a), (''/img/b.jpg_1.0'', tmp_b)],
            cache_size_used := 800,
            files := [tmp_a \<mapsto> 400, tmp_b \<mapsto> 400],
            trace := [Decode img_a, Save tmp_a 400, Decode img_b, Save tmp_b 400]\<rparr>"

text \<open>The frame when \<^verbatim>\<open>os.remove\<close> raises on the artifact of \<open>img_a\<close>.\<close>

definition frame_locked :: engine where
  "frame_locked = frame0\<lparr>remove_fails := (\<lambda>p. p = tmp_a)\<rparr>"

text \<open>
  The frame showing \<open>img_b\<close>, the second of three images, when \<open>img_b\<close> has gone from
  the directory; the frame in random order before its first refresh, and the states
  the first and the second refresh leave it in.
\<close>

definition frame_shown :: engine where
  "frame_shown = frame0\<lparr>current_images := [img_a, img_b, img_c], current_index := 1,
      listing := [img_a, img_c]\<rparr>"

definition frame_random :: engine where
  "frame_random = frame0\<lparr>random_order := True\<rparr>"

definition frame_random1 :: engine where
  "frame_random1 =
     frame_random\<lparr>current_images := [img_c, img_b, img_a], rng := 1,
        feh_process := Some tmp_c, cache := [(''/img/c.jpg_1.0'', tmp_c)],
        cache_size_used := 400, files := [tmp_c \<mapsto> 400],
        trace := [Decode img_c, Save tmp_c 400, Feh tmp_c]\<rparr>"

definition frame_random2 :: engine where
  "frame_random2 =
     frame_random1\<lparr>current_images := [img_b, img_c, img_a], rng := 2,
        feh_process := Some tmp_b,
        cache := [(''/img/c.jpg_1.0'', tmp_c), (''/img/b.jpg_1.0'', tmp_b)],
        cache_size_used := 800, files := [tmp_c \<mapsto> 400, tmp_b \<mapsto> 400],
        trace := [Decode img_c, Save tmp_c 400, Feh tmp_c,
                  Decode img_b, Save tmp_b 400, Feh tmp_b]\<rparr>"

text \<open>
  The synchronisation replaces \<open>img_a\<close>: a new modification time, and an artifact of
  500 bytes. \<open>resync\<close> processes the image before and after the replacement.
\<close>

definition retouched :: source where
  "retouched = \<lparr>src_mtime = ''2.0'', src_size = Some (4000, 2000), src_jpeg = Some 500\<rparr>"

definition resync :: "cache_op list" where
  "resync = [ProcessImage img_a, Touch img_a (Some retouched), ProcessImage img_a]"

subsection \<open>Predicates of the proofs\<close>

text \<open>The fields no method of the cache assigns.\<close>

definition settings ::
  "engine \<Rightarrow> string \<times> bool \<times> bool \<times> int \<times> int \<times> string list \<times> nat \<times> string option \<times> bool
     \<times> (string \<rightharpoonup> source) \<times> (string \<Rightarrow> bool) \<times> (nat \<times> nat) \<times> string list \<times> nat" where
  "settings s =
     (fit_mode s, random_order s, enable_cache s, cache_size s, preload_count s,
      current_images s, current_index s, feh_process s, stop_event s, sources s,
      remove_fails s, screen s, listing s, rng s)"

definition within_budget :: "engine \<Rightarrow> bool" where
  "within_budget s = (cache_size_used s \<le> cache_size s)"

section \<open>Frame lemmas\<close>

lemma settings_evict_entry: "settings (evict_entry key s) = settings s"
  by (simp add: evict_entry_def settings_def Let_def split: option.splits)

lemma settings_clean_loop: "settings (clean_loop m r ks s) = settings s"
  by (induction ks arbitrary: r s) (simp_all add: settings_evict_entry)

lemma settings_clean_cache: "settings (clean_cache s) = settings s"
  by (simp add: clean_cache_def settings_clean_loop)

lemma settings_produce: "settings (snd (produce l p s)) = settings s"
  by (simp add: produce_def settings_def Let_def split: option.splits sum.splits)

lemma settings_admit: "settings (snd (admit k tp s)) = settings s"
  using settings_clean_cache [of s]
  by (simp add: admit_def insert_entry_def Let_def settings_def split: option.splits)

lemma settings_process_image: "settings (snd (process_image l p s)) = settings s"
proof (cases "check_cache p s")
  case (Miss k)
  show ?thesis
  proof (cases "produce l p s")
    case (Pair r s1)
    with Miss settings_produce [of l p s] settings_admit [of k "the r" s1] show ?thesis
      by (cases r) (simp_all add: process_image_def)
  qed
qed (simp_all add: process_image_def)

lemma cache_size_clean_cache: "cache_size (clean_cache s) = cache_size s"
  using settings_clean_cache [of s] by (simp add: settings_def)

section \<open>The concrete frame, evaluated\<close>

lemma fit_cover_hd: "fit_image l ''cover'' (4000, 2000) (1920, 1080) = Inr (1920, 1080)"
  by (simp add: fit_image_def cover_plan_def py_int_def crop_box_def box_size_def)

lemmas run_defs = run_ops_def process_image_def check_cache_def produce_def admit_def
  cache_key_of_def temp_path_of_def insert_entry_def clean_cache_def evict_entry_def
  fit_cover_hd Let_def

lemma frame_ab_reached:
  "run_ops stub_lib [ProcessImage img_a, ProcessImage img_b] frame0 = frame_ab"
  by (simp add: run_defs frame_ab_def frame0_def photo_def stub_lib_def)

section \<open>The byte budget\<close>

lemma used_evict_entry: "cache_size_used (evict_entry key s) \<le> cache_size_used s"
  by (simp add: evict_entry_def Let_def split: option.splits)

lemma used_clean_loop: "cache_size_used (clean_loop m r ks s) \<le> cache_size_used s"
proof (induction ks arbitrary: r s)
  case Nil
  show ?case by simp
next
  case (Cons k ks)
  show ?case
    using Cons [of "r + 1" "evict_entry k s"] used_evict_entry [of k s] by simp
qed

lemma used_clean_cache: "cache_size_used (clean_cache s) \<le> cache_size_used s"
  by (simp add: clean_cache_def used_clean_loop)

lemma budget_clean_cache: "within_budget s \<Longrightarrow> within_budget (clean_cache s)"
  using used_clean_cache [of s] cache_size_clean_cache [of s] by (simp add: within_budget_def)

lemma budget_insert_entry: "fits s n \<Longrightarrow> within_budget (insert_entry k tp (int n) s)"
  by (simp add: fits_def within_budget_def insert_entry_def)

lemma admit_cases:
  "enable_cache s \<Longrightarrow> files s tp = Some n \<Longrightarrow>
   admit k tp s =
     (Some tp,
      if fits s n then insert_entry k tp (int n) s
      else if fits (clean_cache s) n then insert_entry k tp (int n) (clean_cache s)
      else clean_cache s)"
  by (simp add: admit_def fits_def Let_def)

lemma budget_admit:
  assumes b: "within_budget s"
  shows "within_budget (snd (admit k tp s))"
proof (cases "enable_cache s")
  case True
  show ?thesis
  proof (cases "files s tp")
    case None
    with b show ?thesis by (simp add: admit_def)
  next
    case (Some n)
    from b have "within_budget (clean_cache s)" by (rule budget_clean_cache)
    then show ?thesis
      by (simp add: admit_cases [OF True Some] budget_insert_entry)
  qed
next
  case False
  with b show ?thesis by (simp add: admit_def)
qed

lemma budget_produce: "within_budget (snd (produce l p s)) = within_budget s"
  by (simp add: produce_def within_budget_def Let_def split: option.splits sum.splits)

lemma budget_process_image:
  assumes b: "within_budget s"
  shows "within_budget (snd (process_image l p s))"
proof (cases "check_cache p s")
  case (Miss k)
  show ?thesis
  proof (cases "produce l p s")
    case (Pair r s1)
    from b budget_produce [of l p s] Pair have b1: "within_budget s1" by simp
    show ?thesis
    proof (cases r)
      case None
      with Miss Pair b1 show ?thesis by (simp add: process_image_def)
    next
      case (Some tp)
      with Miss Pair budget_admit [OF b1, of k tp] show ?thesis
        by (simp add: process_image_def)
    qed
  qed
qed (use b in \<open>simp_all add: process_image_def\<close>)

lemma budget_apply_op: "within_budget s \<Longrightarrow> within_budget (apply_op l s x)"
proof (cases x)
  case (Touch p src)
  assume "within_budget s"
  with Touch show ?thesis by (simp add: within_budget_def)
qed (simp_all add: budget_process_image budget_clean_cache)

lemma budget_run_ops: "within_budget s \<Longrightarrow> within_budget (run_ops l ops s)"
  unfolding run_ops_def
  by (induction ops arbitrary: s) (simp_all add: budget_apply_op)

lemma absent_evict_entry:
  "map_of (cache s) k = None \<Longrightarrow> map_of (cache (evict_entry k' s)) k = None"
  by (simp add: evict_entry_def Let_def delete_conv split: option.splits)

lemma absent_clean_loop:
  "map_of (cache s) k = None \<Longrightarrow> map_of (cache (clean_loop m r ks s)) k = None"
  by (induction ks arbitrary: r s) (simp_all add: absent_evict_entry)

lemma absent_clean_cache:
  "map_of (cache s) k = None \<Longrightarrow> map_of (cache (clean_cache s)) k = None"
  by (simp add: clean_cache_def absent_clean_loop)

lemma present_insert_entry: "map_of (cache (insert_entry k tp n s)) k = Some tp"
  by (simp add: insert_entry_def update_conv')

text \<open>
  C1. Along every run of \<^verbatim>\<open>process_image\<close> calls, eviction passes and changes of the
  source images, the byte counter \<open>cache_size_used\<close> stays at or below \<open>cache_size\<close>
  once it is there (it starts at zero). With the cache enabled, an artifact of \<open>n\<close>
  bytes is inserted directly when \<open>cache_size_used + n \<le> cache_size\<close>; otherwise one
  eviction pass runs and the same test is made once more; if it fails again the
  artifact is not inserted. In all three cases the location is returned to the caller,
  and the key is in the table afterwards exactly when one of the two tests passed.
\<close>

theorem counter_within_budget:
  assumes "cache_size_used s \<le> cache_size s"
    and "enable_cache t" and "files t tp = Some n" and "map_of (cache t) k = None"
  shows "cache_size_used (run_ops l ops s) \<le> cache_size (run_ops l ops s)
       \<and> admit k tp t =
           (Some tp,
            if fits t n then insert_entry k tp (int n) t
            else if fits (clean_cache t) n then insert_entry k tp (int n) (clean_cache t)
            else clean_cache t)
       \<and> map_of (cache (snd (admit k tp t))) k =
           (if fits t n \<or> fits (clean_cache t) n then Some tp else None)"
proof -
  from assms(1) have "within_budget s" by (simp add: within_budget_def)
  then have "within_budget (run_ops l ops s)" by (rule budget_run_ops)
  then have inv: "cache_size_used (run_ops l ops s) \<le> cache_size (run_ops l ops s)"
    by (simp add: within_budget_def)
  note adm = admit_cases [OF assms(2) assms(3), of k]
  from assms(4) have "map_of (cache (clean_cache t)) k = None" by (rule absent_clean_cache)
  then have "map_of (cache (snd (admit k tp t))) k =
      (if fits t n \<or> fits (clean_cache t) n then Some tp else None)"
    by (simp add: adm present_insert_entry)
  with inv adm show ?thesis by blast
qed

theorem counter_within_budget_witness:
  "cache_size_used frame0 \<le> cache_size frame0
   \<and> enable_cache (snd (produce stub_lib img_c frame_ab))
   \<and> files (snd (produce stub_lib img_c frame_ab)) tmp_c = Some 400
   \<and> map_of (cache (snd (produce stub_lib img_c frame_ab))) ''/img/c.jpg_1.0'' = None
   \<and> cache_size_used
        (run_ops stub_lib [ProcessImage img_a, ProcessImage img_b, ProcessImage img_c] frame0)
      \<le> cache_size
        (run_ops stub_lib [ProcessImage img_a, ProcessImage img_b, ProcessImage img_c] frame0)
   \<and> map_of (cache (snd (admit ''/img/c.jpg_1.0'' tmp_c (snd (produce stub_lib img_c frame_ab)))))
        ''/img/c.jpg_1.0'' = Some tmp_c"
proof -
  let ?t = "snd (produce stub_lib img_c frame_ab)"
  have h1: "cache_size_used frame0 \<le> cache_size frame0"
    by (simp add: frame0_def)
  have h2: "enable_cache ?t"
    by (simp add: run_defs frame_ab_def frame0_def photo_def stub_lib_def)
  have h3: "files ?t tmp_c = Some 400"
    by (simp add: run_defs frame_ab_def frame0_def photo_def stub_lib_def)
  have h4: "map_of (cache ?t) ''/img/c.jpg_1.0'' = None"
    by (simp add: run_defs frame_ab_def frame0_def photo_def stub_lib_def)
  have h5: "fits (clean_cache ?t) 400"
    by (simp add: fits_def run_defs frame_ab_def frame0_def photo_def stub_lib_def)
  note w = counter_within_budget [OF h1 h2 h3 h4, of stub_lib
      "[ProcessImage img_a, ProcessImage img_b, ProcessImage img_c]"]
  from w have inv: "cache_size_used
        (run_ops stub_lib [ProcessImage img_a, ProcessImage img_b, ProcessImage img_c] frame0)
      \<le> cache_size
        (run_ops stub_lib [ProcessImage img_a, ProcessImage img_b, ProcessImage img_c] frame0)"
    by (rule conjunct1)
  from w have "map_of (cache (snd (admit ''/img/c.jpg_1.0'' tmp_c ?t))) ''/img/c.jpg_1.0'' =
      (if fits ?t 400 \<or> fits (clean_cache ?t) 400 then Some tmp_c else None)"
    by (rule conjunct2 [THEN conjunct2])
  then have "map_of (cache (snd (admit ''/img/c.jpg_1.0'' tmp_c ?t))) ''/img/c.jpg_1.0''
      = Some tmp_c"
    by (simp only: h5 simp_thms if_True)
  with inv
  have "cache_size_used
        (run_ops stub_lib [ProcessImage img_a, ProcessImage img_b, ProcessImage img_c] frame0)
      \<le> cache_size
        (run_ops stub_lib [ProcessImage img_a, ProcessImage img_b, ProcessImage img_c] frame0)
    \<and> map_of (cache (snd (admit ''/img/c.jpg_1.0'' tmp_c ?t))) ''/img/c.jpg_1.0'' = Some tmp_c"
    by (rule conjI)
  with h1 h2 h3 h4 show ?thesis by blast
qed

lemma clean_loop_fold: "clean_loop m r ks s = fold evict_entry (take (m - r) ks) s"
proof (induction ks arbitrary: r s)
  case Nil
  show ?case by simp
next
  case (Cons k ks)
  show ?case
  proof (cases "m \<le> r")
    case True
    then show ?thesis by simp
  next
    case False
    then have "m - r = Suc (m - (r + 1))" by arith
    then have "take (m - r) (k # ks) = k # take (m - (r + 1)) ks"
      by (simp only: take_Suc_Cons)
    with False Cons [of "r + 1" "evict_entry k s"] show ?thesis by simp
  qed
qed

lemma delete_fresh: "k \<notin> fst ` set c \<Longrightarrow> AList.delete k c = c"
  by (induction c) auto

lemma evict_entry_head:
  assumes c: "cache s = (k, p) # c'" and fresh: "k \<notin> fst ` set c'"
  shows "cache (evict_entry k s) = c'"
    and "remove_fails (evict_entry k s) = remove_fails s"
    and "cache_size_used (evict_entry k s) = cache_size_used s - int (reclaimed s p)"
    and "files (evict_entry k s) = (\<lambda>q. if q = p \<and> \<not> remove_fails s p then None else files s q)"
  using c fresh
  by (auto simp add: evict_entry_def Let_def reclaimed_def size_on_disk_def delete_fresh
      split: option.splits)

lemma reclaimed_after:
  assumes "remove_fails s1 = remove_fails s"
    and "files s1 = (\<lambda>q. if q = p \<and> \<not> remove_fails s p then None else files s q)"
  shows "reclaimed s1 q = (if q = p then 0 else reclaimed s q)"
  using assms by (simp add: reclaimed_def size_on_disk_def)

lemma sum_insert_masked:
  fixes f :: "'a \<Rightarrow> nat"
  assumes "finite Q"
  shows "f p + (\<Sum>q\<in>Q. if q = p then 0 else f q) = (\<Sum>q\<in>insert p Q. f q)"
proof -
  have "(\<Sum>q\<in>Q. if q = p then 0 else f q) = (\<Sum>q\<in>Q - {p}. f q)"
    using assms by (intro sum.mono_neutral_cong_right) auto
  moreover have "(\<Sum>q\<in>insert p Q. f q) = f p + (\<Sum>q\<in>Q - {p}. f q)"
    using assms by (simp add: sum.insert_remove)
  ultimately show ?thesis by simp
qed

lemma fold_evict_entries:
  assumes "cache s = es @ rest" and "distinct (map fst (es @ rest))"
  shows "cache (fold evict_entry (map fst es) s) = rest
       \<and> remove_fails (fold evict_entry (map fst es) s) = remove_fails s
       \<and> cache_size_used (fold evict_entry (map fst es) s) =
           cache_size_used s - int (\<Sum>p\<in>snd ` set es. reclaimed s p)
       \<and> files (fold evict_entry (map fst es) s) =
           (\<lambda>q. if q \<in> snd ` set es \<and> \<not> remove_fails s q then None else files s q)"
  using assms
proof (induction es arbitrary: s)
  case Nil
  then show ?case by simp
next
  case (Cons e es)
  obtain k p where e: "e = (k, p)" by (cases e)
  let ?s1 = "evict_entry k s"
  from Cons.prems e have c: "cache s = (k, p) # (es @ rest)"
    and fresh: "k \<notin> fst ` set (es @ rest)" and d: "distinct (map fst (es @ rest))"
    by auto
  note h = evict_entry_head [OF c fresh]
  from Cons.IH [OF h(1) d]
  have ih: "cache (fold evict_entry (map fst es) ?s1) = rest"
    "remove_fails (fold evict_entry (map fst es) ?s1) = remove_fails ?s1"
    "cache_size_used (fold evict_entry (map fst es) ?s1) =
       cache_size_used ?s1 - int (\<Sum>q\<in>snd ` set es. reclaimed ?s1 q)"
    "files (fold evict_entry (map fst es) ?s1) =
       (\<lambda>q. if q \<in> snd ` set es \<and> \<not> remove_fails ?s1 q then None else files ?s1 q)"
    by simp_all
  have r: "\<And>q. reclaimed ?s1 q = (if q = p then 0 else reclaimed s q)"
    by (rule reclaimed_after [OF h(2) h(4)])
  have total: "reclaimed s p + (\<Sum>q\<in>snd ` set es. reclaimed ?s1 q)
      = (\<Sum>q\<in>insert p (snd ` set es). reclaimed s q)"
    unfolding r by (rule sum_insert_masked) simp
  have paths: "snd ` set (e # es) = insert p (snd ` set es)"
    using e by simp
  have "cache_size_used (fold evict_entry (map fst (e # es)) s) =
      cache_size_used (fold evict_entry (map fst es) ?s1)"
    using e by simp
  also have "\<dots> = cache_size_used ?s1 - int (\<Sum>q\<in>snd ` set es. reclaimed ?s1 q)"
    by (rule ih(3))
  also have "\<dots> = cache_size_used s
      - (int (reclaimed s p) + int (\<Sum>q\<in>snd ` set es. reclaimed ?s1 q))"
    by (simp only: h(3) diff_diff_eq)
  also have "\<dots> = cache_size_used s
      - int (reclaimed s p + (\<Sum>q\<in>snd ` set es. reclaimed ?s1 q))"
    by (simp only: of_nat_add)
  finally have used: "cache_size_used (fold evict_entry (map fst (e # es)) s) =
      cache_size_used s - int (\<Sum>q\<in>snd ` set (e # es). reclaimed s q)"
    by (simp only: total paths)
  have fl: "files (fold evict_entry (map fst (e # es)) s) =
      (\<lambda>q. if q \<in> snd ` set (e # es) \<and> \<not> remove_fails s q then None else files s q)"
    using ih(4) h(2) h(4) e by (auto simp add: fun_eq_iff)
  from ih(1) ih(2) h(2) e used fl show ?case by simp
qed

lemma clean_cache_fold:
  "clean_cache s = fold evict_entry (map fst (evicted s)) s"
  by (simp add: clean_cache_def clean_loop_fold evicted_def take_map)

lemma clean_cache_effect:
  assumes "distinct (map fst (cache s))"
  shows "cache (clean_cache s) = drop (length (cache s) div 2) (cache s)"
    and "remove_fails (clean_cache s) = remove_fails s"
    and "cache_size_used (clean_cache s) =
           cache_size_used s - int (\<Sum>p\<in>snd ` set (evicted s). reclaimed s p)"
    and "files (clean_cache s) =
           (\<lambda>q. if q \<in> snd ` set (evicted s) \<and> \<not> remove_fails s q then None else files s q)"
proof -
  have c: "cache s = evicted s @ drop (length (cache s) div 2) (cache s)"
    by (simp add: evicted_def)
  from assms c have d: "distinct (map fst (evicted s @ drop (length (cache s) div 2) (cache s)))"
    by simp
  from fold_evict_entries [OF c d]
  show "cache (clean_cache s) = drop (length (cache s) div 2) (cache s)"
    and "remove_fails (clean_cache s) = remove_fails s"
    and "cache_size_used (clean_cache s) =
           cache_size_used s - int (\<Sum>p\<in>snd ` set (evicted s). reclaimed s p)"
    and "files (clean_cache s) =
           (\<lambda>q. if q \<in> snd ` set (evicted s) \<and> \<not> remove_fails s q then None else files s q)"
    by (simp_all add: clean_cache_fold)
qed


lemma cache_bytes_split:
  "cache_bytes s =
     sum_list (map (size_on_disk s) (map snd (evicted s)))
   + sum_list (map (size_on_disk s) (map snd (drop (length (cache s) div 2) (cache s))))"
proof -
  let ?n = "length (cache s) div 2"
  have "cache_bytes s
      = sum_list (map (size_on_disk s) (map snd (take ?n (cache s) @ drop ?n (cache s))))"
    by (simp add: cache_bytes_def case_prod_unfold comp_def)
  then show ?thesis
    by (simp only: map_append sum_list_append evicted_def)
qed

lemma clean_cache_keeps_balance:
  assumes keys: "distinct (map fst (cache s))"
    and paths: "distinct (map snd (cache s))"
    and ok: "\<forall>p\<in>snd ` set (evicted s). \<not> remove_fails s p"
  shows "int (cache_bytes (clean_cache s)) - cache_size_used (clean_cache s)
       = int (cache_bytes s) - cache_size_used s"
proof -
  let ?n = "length (cache s) div 2"
  let ?kept = "drop ?n (cache s)"
  let ?s' = "clean_cache s"
  note eff = clean_cache_effect [OF keys]
  have split: "map snd (cache s) = map snd (evicted s) @ map snd ?kept"
    by (simp add: evicted_def flip: map_append)
  with paths have d1: "distinct (map snd (evicted s))"
    and disj: "snd ` set (evicted s) \<inter> snd ` set ?kept = {}"
    by (simp_all add: image_set del: set_map)
  have freed: "(\<Sum>p\<in>snd ` set (evicted s). reclaimed s p)
      = sum_list (map (size_on_disk s) (map snd (evicted s)))"
  proof -
    have "(\<Sum>p\<in>snd ` set (evicted s). reclaimed s p)
        = (\<Sum>p\<in>snd ` set (evicted s). size_on_disk s p)"
      by (intro sum.cong refl) (use ok in \<open>auto simp add: reclaimed_def\<close>)
    also have "\<dots> = sum_list (map (size_on_disk s) (map snd (evicted s)))"
      using sum_list_distinct_conv_sum_set [OF d1, of "size_on_disk s"] by simp
    finally show ?thesis .
  qed
  have same: "size_on_disk ?s' p = size_on_disk s p" if "p \<in> snd ` set ?kept" for p
  proof -
    from that disj have "p \<notin> snd ` set (evicted s)" by blast
    then show ?thesis by (simp add: size_on_disk_def eff(4))
  qed
  have "cache_bytes ?s' = sum_list (map (size_on_disk ?s') (map snd ?kept))"
    by (simp add: cache_bytes_def eff(1) case_prod_unfold comp_def)
  also have "\<dots> = sum_list (map (size_on_disk s) (map snd ?kept))"
    using same by (intro arg_cong [where f = sum_list] map_cong) simp_all
  finally have kept: "cache_bytes ?s' = sum_list (map (size_on_disk s) (map snd ?kept))" .
  have "int (cache_bytes s) = int (cache_bytes ?s')
      + int (\<Sum>p\<in>snd ` set (evicted s). reclaimed s p)"
    by (simp only: kept freed cache_bytes_split [of s] flip: of_nat_add)
  with eff(3) show ?thesis by linarith
qed

text \<open>
  C2, as amended. An eviction pass over a table with distinct keys drops the first half
  of the entries (in iteration order) from the table, whether or not their files exist
  or can be deleted. The byte counter goes down by the bytes the pass frees on disk:
  for each file of a dropped entry that exists and is deleted, its size on disk at that
  moment, counted once; nothing is subtracted for a file that is absent or whose
  deletion raises. So the counter never goes up in a pass. When no two entries share a
  file and no deletion of the pass raises, a counter that equals the bytes the files of
  the entries hold on disk still equals them after the pass.
\<close>

theorem eviction_accounting:
  assumes "distinct (map fst (cache s))"
  shows "cache (clean_cache s) = drop (length (cache s) div 2) (cache s)
       \<and> cache_size_used (clean_cache s) =
           cache_size_used s - int (\<Sum>p\<in>snd ` set (evicted s). reclaimed s p)
       \<and> cache_size_used (clean_cache s) \<le> cache_size_used s
       \<and> (distinct (map snd (cache s))
            \<and> (\<forall>p\<in>snd ` set (evicted s). \<not> remove_fails s p)
            \<and> cache_size_used s = int (cache_bytes s)
          \<longrightarrow> cache_size_used (clean_cache s) = int (cache_bytes (clean_cache s)))"
proof -
  note eff = clean_cache_effect [OF assms]
  have "distinct (map snd (cache s)) \<and> (\<forall>p\<in>snd ` set (evicted s). \<not> remove_fails s p)
      \<and> cache_size_used s = int (cache_bytes s)
    \<longrightarrow> cache_size_used (clean_cache s) = int (cache_bytes (clean_cache s))"
  proof
    assume a: "distinct (map snd (cache s)) \<and> (\<forall>p\<in>snd ` set (evicted s). \<not> remove_fails s p)
      \<and> cache_size_used s = int (cache_bytes s)"
    then have "int (cache_bytes (clean_cache s)) - cache_size_used (clean_cache s)
        = int (cache_bytes s) - cache_size_used s"
      using clean_cache_keeps_balance [OF assms] by blast
    with a show "cache_size_used (clean_cache s) = int (cache_bytes (clean_cache s))"
      by linarith
  qed
  with eff(1) eff(3) used_clean_cache [of s] show ?thesis by blast
qed

theorem eviction_accounting_witness:
  "distinct (map fst (cache frame_ab))
   \<and> distinct (map snd (cache frame_ab))
   \<and> evicted frame_ab = [(''/img/a.jpg_1.0'', tmp_a)]
   \<and> \<not> remove_fails frame_ab tmp_a
   \<and> cache_size_used frame_ab = int (cache_bytes frame_ab)
   \<and> cache (clean_cache frame_ab) = drop (length (cache frame_ab) div 2) (cache frame_ab)
   \<and> cache_size_used (clean_cache frame_ab) = int (cache_bytes (clean_cache frame_ab))"
proof -
  have h1: "distinct (map fst (cache frame_ab))"
    by (simp add: frame_ab_def frame0_def)
  have h2: "distinct (map snd (cache frame_ab))"
    by (simp add: frame_ab_def frame0_def)
  have h3: "evicted frame_ab = [(''/img/a.jpg_1.0'', tmp_a)]"
    by (simp add: evicted_def frame_ab_def frame0_def)
  have h4: "\<not> remove_fails frame_ab tmp_a"
    by (simp add: frame_ab_def frame0_def)
  have h5: "cache_size_used frame_ab = int (cache_bytes frame_ab)"
    by (simp add: cache_bytes_def size_on_disk_def frame_ab_def frame0_def)
  from h3 h4 have h6: "\<forall>p\<in>snd ` set (evicted frame_ab). \<not> remove_fails frame_ab p"
    by simp
  note w = eviction_accounting [OF h1]
  from w have c1: "cache (clean_cache frame_ab)
      = drop (length (cache frame_ab) div 2) (cache frame_ab)"
    by (rule conjunct1)
  from w h2 h6 h5
  have c2: "cache_size_used (clean_cache frame_ab) = int (cache_bytes (clean_cache frame_ab))"
    by blast
  from h1 h2 h3 h4 h5 c1 c2 show ?thesis by blast
qed

text \<open>
  C2 as stated fails: with \<^verbatim>\<open>os.remove\<close> raising on the artifact of \<open>img_a\<close>, after
  two admissions of 400 bytes and one eviction pass the entry of \<open>img_a\<close> is gone from
  the table and nothing was subtracted for it. The counter stands at 800 while the one
  remaining entry holds 400 bytes, and nothing outside the engine deleted a file.
\<close>

theorem eviction_drops_entry_keeps_bytes:
  "cache (run_ops stub_lib [ProcessImage img_a, ProcessImage img_b, CleanCache] frame_locked)
     = [(''/img/b.jpg_1.0'', tmp_b)]
   \<and> files (run_ops stub_lib [ProcessImage img_a, ProcessImage img_b, CleanCache] frame_locked)
        tmp_b = Some 400
   \<and> cache_size_used
        (run_ops stub_lib [ProcessImage img_a, ProcessImage img_b, CleanCache] frame_locked)
     = 800
   \<and> cache_bytes
        (run_ops stub_lib [ProcessImage img_a, ProcessImage img_b, CleanCache] frame_locked)
     = 400
   \<and> cache_size_used
        (run_ops stub_lib [ProcessImage img_a, ProcessImage img_b, CleanCache] frame_locked)
     \<noteq> int (cache_bytes
        (run_ops stub_lib [ProcessImage img_a, ProcessImage img_b, CleanCache] frame_locked))"
  by (simp add: run_defs cache_bytes_def size_on_disk_def frame_locked_def frame0_def
      photo_def stub_lib_def)

section \<open>Cache hits\<close>

text \<open>
  C3. When the key built from the image path and its current modification time has an
  entry in the table, \<^verbatim>\<open>process_image\<close> returns the stored location and the state is
  the one it started from: no event is added to the trace (no decode, no save), no
  file under \<^verbatim>\<open>/tmp\<close> changes, and the table and the counter are as before.
\<close>

theorem cache_hit_skips_producer:
  assumes "sources s image_path = Some src"
    and "map_of (cache s) (cache_key_of image_path (src_mtime src)) = Some location"
  shows "process_image l image_path s = (Some location, s)"
  using assms by (simp add: process_image_def check_cache_def)

theorem cache_hit_skips_producer_witness:
  "sources frame_ab img_a = Some (photo ''1.0'')
   \<and> map_of (cache frame_ab) (cache_key_of img_a (src_mtime (photo ''1.0''))) = Some tmp_a
   \<and> process_image stub_lib img_a frame_ab = (Some tmp_a, frame_ab)"
proof -
  have h1: "sources frame_ab img_a = Some (photo ''1.0'')"
    by (simp add: frame_ab_def frame0_def)
  have h2: "map_of (cache frame_ab) (cache_key_of img_a (src_mtime (photo ''1.0'')))
      = Some tmp_a"
    by (simp add: frame_ab_def frame0_def photo_def cache_key_of_def)
  from cache_hit_skips_producer [OF h1 h2, of stub_lib] h1 h2 show ?thesis by blast
qed

section \<open>The cover fit\<close>

text \<open>
  C8. With fit mode \<^verbatim>\<open>cover\<close>, an image of 4000 by 2000 pixels on a screen of 1920 by
  1080 is resized to 2160 by 1080 (the ratio of two to one is kept and both sides reach
  the screen's), then cropped with the box (120, 0, 2040, 1080): 120 columns are cut on
  the left and 2160 - 2040 = 120 on the right, no row is cut, and the box lies inside
  the resized image, so nothing is padded. The saved bitmap is 1920 by 1080. At this
  input the float operations of the source are exact (4000 / 2000 is 2.0 and
  1080 * 2.0 is 2160.0), and the comparison of 2.0 with 1920 / 1080 is far from a
  rounding error.
\<close>

theorem cover_4000x2000_on_1920x1080:
  "cover_plan (4000, 2000) (1920, 1080)
     = Inr \<lparr>new_width = 2160, new_height = 1080, crop_left = 120, crop_top = 0\<rparr>
   \<and> crop_box \<lparr>new_width = 2160, new_height = 1080, crop_left = 120, crop_top = 0\<rparr>
        (1920, 1080) = (120, 0, 2040, 1080)
   \<and> box_size (120, 0, 2040, 1080) = (1920, 1080)
   \<and> box_inside \<lparr>new_width = 2160, new_height = 1080, crop_left = 120, crop_top = 0\<rparr>
        (120, 0, 2040, 1080)
   \<and> box_centred \<lparr>new_width = 2160, new_height = 1080, crop_left = 120, crop_top = 0\<rparr>
        (120, 0, 2040, 1080)
   \<and> fit_image l ''cover'' (4000, 2000) (1920, 1080) = Inr (1920, 1080)"
  by (simp add: fit_image_def cover_plan_def py_int_def crop_box_def box_size_def
      box_inside_def box_centred_def)

section \<open>The sequencer\<close>

text \<open>
  C10. With an empty image list \<^verbatim>\<open>next_image\<close> returns at once: no exception, the
  state (the index and every other field, the trace of displays among them) is the one
  it started from.
\<close>

theorem next_image_empty_noop:
  assumes "current_images s = []"
  shows "next_image l s = Inr s"
  using assms by (simp add: next_image_def)

theorem next_image_empty_noop_witness:
  "current_images frame0 = [] \<and> next_image stub_lib frame0 = Inr frame0"
proof -
  have h: "current_images frame0 = []" by (simp add: frame0_def)
  from next_image_empty_noop [OF h, of stub_lib] h show ?thesis by blast
qed

lemmas seq_defs = refresh_images_def scan_images_def display_image_def start_feh_def
  py_getitem_def py_mod_def next_image_def

lemma sequence_display_image:
  "current_images (display_image l p s) = current_images s"
  "current_index (display_image l p s) = current_index s"
  "listing (display_image l p s) = listing s"
  "random_order (display_image l p s) = random_order s"
  using settings_process_image [of l p s]
  by (cases "process_image l p s"; cases "fst (process_image l p s)";
      simp add: display_image_def start_feh_def settings_def)+

text \<open>
  C5. When the scan differs from the held list, \<^verbatim>\<open>refresh_images\<close> replaces the held
  list by the scan (shuffled first when \<open>random_order\<close> is set; a shuffle keeps the
  length) and keeps the index when it is below the new length, else sets it to 0. The
  witness is the scenario of the specification: [A, B, C] at index 1 refreshed to
  [A, C], in order, keeps index 1, which now points at C.
\<close>

theorem refresh_replaces_and_adjusts:
  assumes "listing s \<noteq> current_images s"
    and "length (shuffle l (rng s) (listing s)) = length (listing s)"
  shows "\<exists>s'. refresh_images l s = Inr s'
      \<and> current_images s' = (if random_order s then shuffle l (rng s) (listing s) else listing s)
      \<and> current_index s' = (if current_index s < length (listing s) then current_index s else 0)"
  using assms
  by (auto simp add: refresh_images_def scan_images_def py_getitem_def Let_def
      sequence_display_image)

theorem refresh_replaces_and_adjusts_witness:
  "listing frame_shown \<noteq> current_images frame_shown
   \<and> length (shuffle stub_lib (rng frame_shown) (listing frame_shown)) = length (listing frame_shown)
   \<and> (\<exists>s'. refresh_images stub_lib frame_shown = Inr s'
        \<and> current_images s' = [img_a, img_c] \<and> current_index s' = 1
        \<and> current_images s' ! current_index s' = img_c)"
proof -
  have h1: "listing frame_shown \<noteq> current_images frame_shown"
    by (simp add: frame_shown_def frame0_def)
  have h2: "length (shuffle stub_lib (rng frame_shown) (listing frame_shown))
      = length (listing frame_shown)"
    by (simp add: frame_shown_def frame0_def stub_lib_def)
  have h3: "\<not> random_order frame_shown" "listing frame_shown = [img_a, img_c]"
    "current_index frame_shown = 1"
    by (simp_all add: frame_shown_def frame0_def)
  from refresh_replaces_and_adjusts [OF h1 h2]
  obtain s' where "refresh_images stub_lib frame_shown = Inr s'"
    and "current_images s' = [img_a, img_c]" and "current_index s' = 1"
    using h3 by auto
  then have "\<exists>s'. refresh_images stub_lib frame_shown = Inr s'
        \<and> current_images s' = [img_a, img_c] \<and> current_index s' = 1
        \<and> current_images s' ! current_index s' = img_c"
    by simp
  with h1 h2 show ?thesis by blast
qed

text \<open>
  When the list is kept in order, a refresh that follows a refresh with the same
  listing changes nothing.
\<close>

lemma refresh_in_order_idempotent:
  assumes "\<not> random_order s" and "refresh_images l s = Inr s1"
  shows "refresh_images l s1 = Inr s1"
proof -
  from assms have "current_images s1 = listing s \<and> listing s1 = listing s"
    by (auto simp add: refresh_images_def scan_images_def py_getitem_def Let_def
      sequence_display_image split: if_splits)
  then show ?thesis by (simp add: refresh_images_def scan_images_def)
qed

text \<open>
  C6 on the code. With \<open>random_order\<close> set (the default of \<^verbatim>\<open>load_config\<close>), line 259
  compares the sorted scan with the shuffled list it holds. In the frame, the first
  refresh shuffles [a, b, c] to [c, b, a] and shows c; the second refresh, with the
  same listing, finds the lists different, shuffles again to [b, c, a], and shows b:
  the held order, the displayed item and the state all change.
\<close>

theorem refresh_twice_reshuffles:
  "refresh_images stub_lib frame_random = Inr frame_random1
   \<and> listing frame_random1 = listing frame_random
   \<and> refresh_images stub_lib frame_random1 = Inr frame_random2
   \<and> current_images frame_random1 = [img_c, img_b, img_a]
   \<and> current_images frame_random2 = [img_b, img_c, img_a]
   \<and> feh_process frame_random1 = Some tmp_c
   \<and> feh_process frame_random2 = Some tmp_b
   \<and> frame_random2 \<noteq> frame_random1"
  by (simp add: seq_defs run_defs frame_random2_def frame_random1_def frame_random_def frame0_def
      photo_def stub_lib_def)

section \<open>The preloader\<close>

text \<open>
  On a list that is not empty a pass raises nothing: every index is taken modulo the
  length of the list as it is at that step, and is in range.
\<close>

lemma preload_loop_nonempty:
  "current_images s \<noteq> [] \<Longrightarrow> \<exists>s'. preload_loop l steps s = Inr s'"
proof (induction steps arbitrary: s)
  case Nil
  show ?case by simp
next
  case (Cons i steps)
  let ?n = "(current_index s + i + 1) mod length (current_images s)"
  let ?s1 = "snd (process_image l (current_images s ! ?n) s)"
  from settings_process_image [of l "current_images s ! ?n" s]
  have "current_images ?s1 = current_images s" by (simp add: settings_def)
  with Cons.prems have "current_images ?s1 \<noteq> []" by simp
  from Cons.IH [OF this] Cons.prems show ?case
    by (simp add: py_mod_def py_getitem_def)
qed

text \<open>
  C7 on the code. With an empty list and a window of three, the first step of the
  pass evaluates \<^verbatim>\<open>(current_index + 0 + 1) % 0\<close> at line 184 and raises
  \<^verbatim>\<open>ZeroDivisionError\<close>; \<^verbatim>\<open>next_image\<close> guards the same modulo with line 248.
\<close>

theorem preload_pass_empty_list_raises:
  "current_images frame0 = [] \<and> preload_count frame0 = 3 \<and> preload_pass stub_lib frame0 = Inl ZeroDivisionError"
  by (simp add: preload_pass_def py_mod_def frame0_def upt_rec)

section \<open>Artifact locations\<close>

text \<open>
  C4 on the code. The location of line 121 is built from the hash of the image path
  alone. In the frame, \<open>img_a\<close> is processed, replaced by the synchronisation (the key
  changes with the modification time), and processed again: both calls return the same
  location, the second save overwrites the file of the first entry (500 bytes now), and
  the table holds two entries on one file. The next eviction pass drops the stale entry
  and deletes the file, and \<^verbatim>\<open>process_image\<close> then answers from the live entry with a
  location at which no file exists.
\<close>

theorem changed_source_reuses_location:
  "cache_key_of img_a (src_mtime (photo ''1.0'')) \<noteq> cache_key_of img_a (src_mtime retouched)
   \<and> fst (process_image stub_lib img_a frame0) = Some tmp_a
   \<and> fst (process_image stub_lib img_a
        (run_ops stub_lib [ProcessImage img_a, Touch img_a (Some retouched)] frame0)) = Some tmp_a
   \<and> cache (run_ops stub_lib resync frame0)
        = [(''/img/a.jpg_1.0'', tmp_a), (''/img/a.jpg_2.0'', tmp_a)]
   \<and> files (run_ops stub_lib resync frame0) tmp_a = Some 500
   \<and> cache (run_ops stub_lib (resync @ [CleanCache]) frame0) = [(''/img/a.jpg_2.0'', tmp_a)]
   \<and> files (run_ops stub_lib (resync @ [CleanCache]) frame0) tmp_a = None
   \<and> fst (process_image stub_lib img_a (run_ops stub_lib (resync @ [CleanCache]) frame0))
        = Some tmp_a"
  by (simp add: run_defs resync_def retouched_def frame0_def photo_def stub_lib_def)

section \<open>Two callers\<close>

lemma three_steps:
  "interleave l p [True, True, True] (Begin, c2, s)
     = (Returned (fst (process_image l p s)), c2, snd (process_image l p s))"
proof (cases "check_cache p s")
  case (Miss k)
  obtain r s1 where pr: "produce l p s = (r, s1)" by (cases "produce l p s")
  show ?thesis
  proof (cases r)
    case None
    with Miss pr show ?thesis by (simp add: thread_step_def process_image_def)
  next
    case (Some tp)
    obtain r' s2 where "admit k tp s1 = (r', s2)" by (cases "admit k tp s1")
    with Miss pr Some show ?thesis by (simp add: thread_step_def process_image_def)
  qed
qed (simp_all add: thread_step_def process_image_def)

lemma three_steps_second:
  "interleave l p [False, False, False] (c1, Begin, s)
     = (c1, Returned (fst (process_image l p s)), snd (process_image l p s))"
proof (cases "check_cache p s")
  case (Miss k)
  obtain r s1 where pr: "produce l p s = (r, s1)" by (cases "produce l p s")
  show ?thesis
  proof (cases r)
    case None
    with Miss pr show ?thesis by (simp add: thread_step_def process_image_def)
  next
    case (Some tp)
    obtain r' s2 where "admit k tp s1 = (r', s2)" by (cases "admit k tp s1")
    with Miss pr Some show ?thesis by (simp add: thread_step_def process_image_def)
  qed
qed (simp_all add: thread_step_def process_image_def)

lemma interleave_append:
  "interleave l p (xs @ ys) c = interleave l p ys (interleave l p xs c)"
proof (induction xs arbitrary: c)
  case Nil
  show ?case by simp
next
  case (Cons x xs)
  obtain c1 c2 s where c: "c = (c1, c2, s)" by (cases c)
  show ?case unfolding c using Cons by (simp split: prod.splits)
qed

lemma decodes_evict_entry: "decodes p (evict_entry k s) = decodes p s"
  by (simp add: decodes_def evict_entry_def Let_def split: option.splits)

lemma decodes_clean_loop: "decodes p (clean_loop m r ks s) = decodes p s"
  by (induction ks arbitrary: r s) (simp_all add: decodes_evict_entry)

lemma decodes_clean_cache: "decodes p (clean_cache s) = decodes p s"
  by (simp add: clean_cache_def decodes_clean_loop)

lemma decodes_admit: "decodes p (snd (admit k tp s)) = decodes p s"
  using decodes_clean_cache [of p s]
  by (simp add: admit_def insert_entry_def Let_def decodes_def split: option.splits)

lemma decodes_produce: "decodes p (snd (produce l p s)) \<le> decodes p s + 1"
  by (simp add: produce_def decodes_def Let_def split: option.splits sum.splits)

lemma cache_produce: "cache (snd (produce l p s)) = cache s"
  by (simp add: produce_def Let_def split: option.splits sum.splits)

lemma decodes_process_image: "decodes p (snd (process_image l p s)) \<le> decodes p s + 1"
proof (cases "check_cache p s")
  case (Miss k)
  show ?thesis
  proof (cases "produce l p s")
    case (Pair r s1)
    with Miss decodes_produce [of p l s] decodes_admit [of p k "the r" s1] show ?thesis
      by (cases r) (simp_all add: process_image_def)
  qed
qed (simp_all add: process_image_def)

lemma retained_location:
  assumes run: "process_image l p s = (Some location, s1)"
    and src: "sources s p = Some src"
    and kept: "map_of (cache s1) (cache_key_of p (src_mtime src)) \<noteq> None"
  shows "map_of (cache s1) (cache_key_of p (src_mtime src)) = Some location"
proof (cases "map_of (cache s) (cache_key_of p (src_mtime src))")
  case (Some tp)
  with run src show ?thesis by (simp add: process_image_def check_cache_def)
next
  case None
  let ?k = "cache_key_of p (src_mtime src)"
  from None src have miss: "check_cache p s = Miss ?k" by (simp add: check_cache_def)
  obtain r s' where pr: "produce l p s = (r, s')" by (cases "produce l p s")
  with run miss obtain tp where r: "r = Some tp" and adm: "admit ?k tp s' = (Some location, s1)"
    by (cases r) (simp_all add: process_image_def)
  from pr cache_produce [of l p s] None have absent: "map_of (cache s') ?k = None" by simp
  show ?thesis
  proof (cases "enable_cache s'")
    case False
    with adm absent kept show ?thesis by (simp add: admit_def)
  next
    case True
    show ?thesis
    proof (cases "files s' tp")
      case None
      with True adm show ?thesis by (simp add: admit_def)
    next
      case (Some n)
      from adm absent kept absent_clean_cache [OF absent] show ?thesis
        unfolding admit_cases [OF True Some]
        by (auto simp add: present_insert_entry split: if_splits)
    qed
  qed
qed

text \<open>
  C9, as amended. When the second caller starts after the first has returned, and the
  first call returned a location whose key is in the table afterwards, both callers
  receive that location and the producer has opened the image at most once in the two
  calls. Nothing in the source makes a caller wait for another one.
\<close>

theorem sequential_callers_produce_once:
  assumes "process_image l p s = (Some location, s1)"
    and "sources s p = Some src"
    and "map_of (cache s1) (cache_key_of p (src_mtime src)) \<noteq> None"
  shows "interleave l p [True, True, True, False, False, False] (Begin, Begin, s)
           = (Returned (Some location), Returned (Some location), s1)
       \<and> decodes p s1 \<le> decodes p s + 1"
proof -
  from settings_process_image [of l p s] assms(1) assms(2)
  have src1: "sources s1 p = Some src" by (simp add: settings_def)
  from retained_location [OF assms]
  have hit: "map_of (cache s1) (cache_key_of p (src_mtime src)) = Some location" .
  from src1 hit have second: "process_image l p s1 = (Some location, s1)"
    by (simp add: process_image_def check_cache_def)
  have "interleave l p ([True, True, True] @ [False, False, False]) (Begin, Begin, s)
      = (Returned (Some location), Returned (Some location), s1)"
    by (simp only: interleave_append three_steps three_steps_second assms(1) second fst_conv snd_conv)
  moreover from decodes_process_image [of p l s] assms(1)
  have "decodes p s1 \<le> decodes p s + 1" by simp
  ultimately show ?thesis by simp
qed

theorem sequential_callers_produce_once_witness:
  "process_image stub_lib img_a frame0 = (Some tmp_a, snd (process_image stub_lib img_a frame0))
   \<and> sources frame0 img_a = Some (photo ''1.0'')
   \<and> map_of (cache (snd (process_image stub_lib img_a frame0)))
        (cache_key_of img_a (src_mtime (photo ''1.0''))) \<noteq> None
   \<and> interleave stub_lib img_a [True, True, True, False, False, False] (Begin, Begin, frame0)
        = (Returned (Some tmp_a), Returned (Some tmp_a), snd (process_image stub_lib img_a frame0))
   \<and> decodes img_a (snd (process_image stub_lib img_a frame0)) = 1"
proof -
  let ?s1 = "snd (process_image stub_lib img_a frame0)"
  have h1: "process_image stub_lib img_a frame0 = (Some tmp_a, ?s1)"
    by (simp add: run_defs frame0_def photo_def stub_lib_def)
  have h2: "sources frame0 img_a = Some (photo ''1.0'')"
    by (simp add: frame0_def)
  have h3: "map_of (cache ?s1) (cache_key_of img_a (src_mtime (photo ''1.0''))) \<noteq> None"
    by (simp add: run_defs frame0_def photo_def stub_lib_def)
  have h4: "decodes img_a ?s1 = 1"
    by (simp add: decodes_def run_defs frame0_def photo_def stub_lib_def)
  from sequential_callers_produce_once [OF h1 h2 h3]
  have "interleave stub_lib img_a [True, True, True, False, False, False] (Begin, Begin, frame0)
        = (Returned (Some tmp_a), Returned (Some tmp_a), ?s1)"
    by (rule conjunct1)
  with h1 h2 h3 h4 show ?thesis by blast
qed

text \<open>
  C9 as stated fails: when both callers look the key up before either has admitted
  its artifact, each of them runs the producer. Both receive the same location, and
  the image has been decoded and saved twice.
\<close>

theorem overlapping_callers_both_produce:
  "fst (interleave stub_lib img_a [True, False, True, False, True, False] (Begin, Begin, frame0))
     = Returned (Some tmp_a)
   \<and> fst (snd (interleave stub_lib img_a [True, False, True, False, True, False]
        (Begin, Begin, frame0))) = Returned (Some tmp_a)
   \<and> decodes img_a (snd (snd (interleave stub_lib img_a [True, False, True, False, True, False]
        (Begin, Begin, frame0)))) = 2
   \<and> trace (snd (snd (interleave stub_lib img_a [True, False, True, False, True, False]
        (Begin, Begin, frame0))))
      = [Decode img_a, Save tmp_a 400, Decode img_a, Save tmp_a 400]"
  by (simp add: thread_step_def decodes_def run_defs frame0_def photo_def stub_lib_def)

end
